theory Spec2Isabelle
  imports Complex_Main "HOL-Library.Sublist"
begin

section \<open>Python strings\<close>

text \<open>
  A Python \<open>str\<close> is a sequence of Unicode code points, and \<open>len\<close> counts code points.
  A string is therefore modelled as a list of code points (natural numbers);
  \<open>of_string\<close> turns an ASCII literal into that representation.
\<close>

type_synonym pystr = "nat list"

definition of_string :: "string \<Rightarrow> pystr" where
  "of_string s = map of_char s"

text \<open>
  \<open>str.isspace\<close> on one code point: the code points CPython classifies as whitespace
  (U+0009..U+000D, U+001C..U+0020, U+0085, U+00A0, U+1680, U+2000..U+200A, U+2028, U+2029,
  U+202F, U+205F, U+3000).
\<close>

definition isspace :: "nat \<Rightarrow> bool" where
  "isspace c \<longleftrightarrow>
     (9 \<le> c \<and> c \<le> 13) \<or> (28 \<le> c \<and> c \<le> 32) \<or> c = 133 \<or> c = 160 \<or>
     c = 5760 \<or> (8192 \<le> c \<and> c \<le> 8202) \<or> c = 8232 \<or> c = 8233 \<or>
     c = 8239 \<or> c = 8287 \<or> c = 12288"

definition lstrip :: "pystr \<Rightarrow> pystr" where
  "lstrip s = dropWhile isspace s"

definition rstrip :: "pystr \<Rightarrow> pystr" where
  "rstrip s = rev (dropWhile isspace (rev s))"

text \<open>\<open>s.strip()\<close>: leading and trailing whitespace removed.\<close>

definition strip :: "pystr \<Rightarrow> pystr" where
  "strip s = rstrip (lstrip s)"

text \<open>The separator \<open>" "\<close> of the accumulator.\<close>

definition space :: pystr where
  "space = [32]"


section \<open>The transcript server: module state\<close>

text \<open>
  \<open>transcript_server.py\<close> keeps three module-level variables: the set \<open>connections\<close>,
  the string \<open>full_transcript\<close> (initially empty) and the counter \<open>_update_count\<close>.
  The connection set is kept as a list in the set's iteration order.
\<close>

type_synonym conn = nat

record server =
  connections :: "conn list"
  full_transcript :: pystr
  update_count :: nat

definition initial_server :: server where
  "initial_server = \<lparr>connections = [], full_transcript = [], update_count = 0\<rparr>"

text \<open>
  What \<open>asyncio.get_event_loop()\<close> gives the callback: a loop that is running, a loop
  that is not running, or a \<open>RuntimeError\<close> because the calling thread has no loop.
\<close>

datatype loop_env = LoopRunning | LoopNotRunning | NoCurrentLoop

text \<open>
  The observable effects of one callback: the two log lines, and the call of
  \<open>broadcast_full_transcript\<close> (submitted to the running loop, or run by \<open>asyncio.run\<close>).
\<close>

datatype effect =
    LogInitialized nat
  | LogUpdate nat nat
  | ScheduleBroadcast pystr
  | RunBroadcast pystr

text \<open>A committed span \<open>(start_time, end_time, text)\<close>; each component may be \<open>None\<close>.\<close>

type_synonym span = "real option \<times> real option \<times> pystr option"

text \<open>\<open>new_text = text.strip() if text else ""\<close>: \<open>None\<close> and \<open>""\<close> are both falsy.\<close>

definition new_text_of :: "pystr option \<Rightarrow> pystr" where
  "new_text_of text =
     (case text of None \<Rightarrow> [] | Some t \<Rightarrow> (if t = [] then [] else strip t))"

definition schedule_broadcast :: "loop_env \<Rightarrow> pystr \<Rightarrow> effect list" where
  "schedule_broadcast env full_text =
     (case env of
        LoopRunning \<Rightarrow> [ScheduleBroadcast full_text]
      | LoopNotRunning \<Rightarrow> []
      | NoCurrentLoop \<Rightarrow> [RunBroadcast full_text])"

definition transcript_callback :: "loop_env \<Rightarrow> server \<Rightarrow> span \<Rightarrow> server \<times> effect list" where
  "transcript_callback env s sp =
     (case sp of (start_time, end_time, text) \<Rightarrow>
        let new_text = new_text_of text in
        if new_text = [] then (s, [])
        else
          let ft = (if full_transcript s \<noteq> []
                    then strip (full_transcript s @ space @ new_text)
                    else new_text);
              log1 = (if full_transcript s \<noteq> [] then [] else [LogInitialized (length ft)]);
              n = update_count s + 1;
              log2 = (if n mod 10 = 0 then [LogUpdate n (length ft)] else [])
          in (s\<lparr>full_transcript := ft, update_count := n\<rparr>,
              log1 @ log2 @ schedule_broadcast env ft))"

text \<open>A sequence of callback invocations, each under its own event-loop situation.\<close>

fun callbacks :: "server \<Rightarrow> (loop_env \<times> span) list \<Rightarrow> server" where
  "callbacks s [] = s"
| "callbacks s ((env, sp) # rest) = callbacks (fst (transcript_callback env s sp)) rest"

text \<open>A span that carries only a text, as the accumulator ignores the times.\<close>

definition text_span :: "string \<Rightarrow> span" where
  "text_span t = (None, None, Some (of_string t))"


section \<open>The ingest queue\<close>

text \<open>
  \<open>queue.Queue\<close> of the standard library, as \<open>realtime_transcribe.py\<close> uses it: the
  items in FIFO order, the capacity \<open>maxsize\<close> (a capacity of zero or less means
  unbounded) and the counter of unfinished tasks that \<open>join\<close> waits on. The operations
  are atomic (the queue takes its own lock), so the capture thread and the worker
  thread interleave whole operations.
\<close>

record 'f pyqueue =
  maxsize :: int
  items :: "'f list"
  unfinished_tasks :: nat

datatype queue_full = Full

datatype queue_empty = Empty

datatype exn = Exception string | TypeError | ValueError | AttributeError | ConnectionClosed

definition Queue :: "int \<Rightarrow> 'f pyqueue" where
  "Queue n = \<lparr>maxsize = n, items = [], unfinished_tasks = 0\<rparr>"

definition put_nowait :: "'f pyqueue \<Rightarrow> 'f \<Rightarrow> queue_full + 'f pyqueue" where
  "put_nowait q x =
     (if 0 < maxsize q \<and> maxsize q \<le> int (length (items q)) then Inl Full
      else Inr (q\<lparr>items := items q @ [x], unfinished_tasks := unfinished_tasks q + 1\<rparr>))"

text \<open>\<open>get(timeout=0.1)\<close>: the oldest item, or \<open>queue.Empty\<close> once the timeout has passed.\<close>

definition get_timeout :: "'f pyqueue \<Rightarrow> queue_empty + ('f \<times> 'f pyqueue)" where
  "get_timeout q =
     (case items q of [] \<Rightarrow> Inl Empty | x # rest \<Rightarrow> Inr (x, q\<lparr>items := rest\<rparr>))"

text \<open>\<open>task_done\<close> raises \<open>ValueError\<close> when called more often than items were put.\<close>

definition task_done :: "'f pyqueue \<Rightarrow> exn + 'f pyqueue" where
  "task_done q =
     (if unfinished_tasks q = 0 then Inl ValueError
      else Inr (q\<lparr>unfinished_tasks := unfinished_tasks q - 1\<rparr>))"

text \<open>\<open>audio_queue = queue.Queue(maxsize=5)\<close>\<close>

definition audio_queue_new :: "'f pyqueue" where
  "audio_queue_new = Queue 5"

text \<open>
  \<open>audio_callback\<close> of the sounddevice path, on the mono chunk it has extracted: it
  raises \<open>sd.CallbackStop\<close> once \<open>running\<close> is false, and otherwise puts the chunk
  without blocking, swallowing \<open>queue.Full\<close>. (The report of a device status on
  standard error is left out.)
\<close>

datatype callback_stop = CallbackStop

definition audio_callback :: "bool \<Rightarrow> 'f pyqueue \<Rightarrow> 'f \<Rightarrow> callback_stop + 'f pyqueue" where
  "audio_callback running q audio_chunk =
     (if \<not> running then Inl CallbackStop
      else (case put_nowait q audio_chunk of
              Inr q' \<Rightarrow> Inr q'
            | Inl Full \<Rightarrow> Inr q))"

text \<open>
  An interleaving of the two threads on the queue while \<open>running\<close> holds: a chunk
  arrives at the capture callback, or the worker takes one. The result is the queue
  and the chunks the worker took, in the order it took them.
\<close>

datatype 'f qop = Arrive 'f | Take

fun run_ops :: "'f pyqueue \<Rightarrow> 'f qop list \<Rightarrow> 'f pyqueue \<times> 'f list" where
  "run_ops q [] = (q, [])"
| "run_ops q (Arrive x # ops) =
     (case audio_callback True q x of
        Inr q' \<Rightarrow> run_ops q' ops
      | Inl CallbackStop \<Rightarrow> run_ops q ops)"
| "run_ops q (Take # ops) =
     (case get_timeout q of
        Inl Empty \<Rightarrow> run_ops q ops
      | Inr (x, q') \<Rightarrow> (case run_ops q' ops of (qf, out) \<Rightarrow> (qf, x # out)))"

fun arrivals :: "'f qop list \<Rightarrow> 'f list" where
  "arrivals [] = []"
| "arrivals (Arrive x # ops) = x # arrivals ops"
| "arrivals (Take # ops) = arrivals ops"


section \<open>The transcription worker and the shutdown sequence\<close>

text \<open>
  The recognition engine (\<open>whisper_online\<close>) is an external collaborator: its three
  operations are parameters. Each call returns the engine's next state together with
  either its result or the exception it raised.
\<close>

record ('e, 'f) engine =
  insert_audio_chunk :: "'e \<Rightarrow> 'f \<Rightarrow> 'e \<times> (exn + unit)"
  process_iter :: "'e \<Rightarrow> 'e \<times> (exn + span)"
  finish :: "'e \<Rightarrow> 'e \<times> (exn + span)"

text \<open>
  The arguments of \<open>realtime_transcribe_sounddevice\<close> that the worker reads:
  \<open>callback\<close> is \<open>None\<close> when no \<open>transcript_callback\<close> was given, and otherwise the
  event-loop situation under which the server's callback runs; \<open>output_file\<close> says
  whether a file sink is open.
\<close>

record config =
  callback :: "loop_env option"
  output_file :: bool
  json_output :: bool

datatype 'f event =
    Fed 'f
  | Finished
  | ErrorProcessing exn
  | ErrorFinishing exn
  | WorkerError exn
  | Effect effect
  | WroteJson "real option" "real option" "pystr option" bool
  | WroteLine real real "pystr option"
  | WroteFinal "pystr option"
  | PrintedLine real real "pystr option"
  | PrintedFinal "pystr option"

record ('e, 'f) pipeline =
  engine_state :: 'e
  audio_queue :: "'f pyqueue"
  srv :: server
  trace :: "'f event list"

definition truthy :: "pystr option \<Rightarrow> bool" where
  "truthy text = (case text of None \<Rightarrow> False | Some t \<Rightarrow> t \<noteq> [])"


text \<open>The \<open>:.2f\<close> format of both times raises \<open>TypeError\<close> on \<open>None\<close>.\<close>

definition fmt_times :: "real option \<Rightarrow> real option \<Rightarrow> exn + real \<times> real" where
  "fmt_times a b =
     (case a of None \<Rightarrow> Inl TypeError
      | Some x \<Rightarrow> (case b of None \<Rightarrow> Inl TypeError | Some y \<Rightarrow> Inr (x, y)))"

definition log_event :: "('e, 'f) pipeline \<Rightarrow> 'f event list \<Rightarrow> ('e, 'f) pipeline" where
  "log_event st evs = st\<lparr>trace := trace st @ evs\<rparr>"

text \<open>
  \<open>if transcript_callback: try: transcript_callback(...)\<close> with the server's callback,
  which returns normally on every span.
\<close>

definition call_callback :: "config \<Rightarrow> ('e, 'f) pipeline \<Rightarrow> span \<Rightarrow> ('e, 'f) pipeline" where
  "call_callback cfg st sp =
     (case callback cfg of
        None \<Rightarrow> st
      | Some env \<Rightarrow>
          (case transcript_callback env (srv st) sp of
             (s', effs) \<Rightarrow> st\<lparr>srv := s', trace := trace st @ map Effect effs\<rparr>))"

text \<open>
  The body under \<open>if result[2]:\<close> in the worker: callback, file sink, standard output.
  An exception leaves the body at once, with the effects made so far, and is reported
  by the enclosing handler.
\<close>

definition write_file ::
  "config \<Rightarrow> ('e, 'f) pipeline \<Rightarrow> span \<Rightarrow> (exn \<times> ('e, 'f) pipeline) + ('e, 'f) pipeline" where
  "write_file cfg st result =
     (case result of (start_time, end_time, text) \<Rightarrow>
        if output_file cfg
        then (if json_output cfg
              then Inr (log_event st [WroteJson start_time end_time text False])
              else (case fmt_times start_time end_time of
                      Inl ex \<Rightarrow> Inl (ex, st)
                    | Inr (a, b) \<Rightarrow> Inr (log_event st [WroteLine a b text])))
        else Inr st)"

definition print_line ::
  "config \<Rightarrow> ('e, 'f) pipeline \<Rightarrow> span \<Rightarrow> (exn \<times> ('e, 'f) pipeline) + ('e, 'f) pipeline" where
  "print_line cfg st result =
     (case result of (start_time, end_time, text) \<Rightarrow>
        if \<not> output_file cfg \<or> \<not> json_output cfg
        then (case fmt_times start_time end_time of
                Inl ex \<Rightarrow> Inl (ex, st)
              | Inr (a, b) \<Rightarrow> Inr (log_event st [PrintedLine a b text]))
        else Inr st)"

definition emit ::
  "config \<Rightarrow> ('e, 'f) pipeline \<Rightarrow> span \<Rightarrow> (exn \<times> ('e, 'f) pipeline) + ('e, 'f) pipeline" where
  "emit cfg st result =
     (if \<not> truthy (snd (snd result)) then Inr st
      else (case write_file cfg (call_callback cfg st result) result of
              Inl failed \<Rightarrow> Inl failed
            | Inr st2 \<Rightarrow> print_line cfg st2 result))"

text \<open>
  The inner \<open>try\<close> of the worker on one chunk: feed the engine, poll it, emit the
  result. Any exception is caught and reported as "Error processing audio".
\<close>

definition process_chunk ::
  "config \<Rightarrow> ('e, 'f) engine \<Rightarrow> ('e, 'f) pipeline \<Rightarrow> 'f \<Rightarrow> ('e, 'f) pipeline" where
  "process_chunk cfg eng st audio_chunk =
     (case insert_audio_chunk eng (engine_state st) audio_chunk of
        (e1, Inl ex) \<Rightarrow>
          log_event (st\<lparr>engine_state := e1\<rparr>) [Fed audio_chunk, ErrorProcessing ex]
      | (e1, Inr u) \<Rightarrow>
          (case process_iter eng e1 of
             (e2, Inl ex) \<Rightarrow>
               log_event (st\<lparr>engine_state := e2\<rparr>) [Fed audio_chunk, ErrorProcessing ex]
           | (e2, Inr result) \<Rightarrow>
               (case emit cfg (log_event (st\<lparr>engine_state := e2\<rparr>) [Fed audio_chunk]) result of
                  Inl (ex, st') \<Rightarrow> log_event st' [ErrorProcessing ex]
                | Inr st' \<Rightarrow> st')))"

text \<open>
  One pass through the body of \<open>while running or not audio_queue.empty()\<close>: a timed
  \<open>get\<close>, the chunk's processing, \<open>task_done\<close>. \<open>queue.Empty\<close> continues the loop; any
  other exception is reported only while \<open>running\<close>.
\<close>

definition worker_iteration ::
  "config \<Rightarrow> ('e, 'f) engine \<Rightarrow> bool \<Rightarrow> ('e, 'f) pipeline \<Rightarrow> ('e, 'f) pipeline" where
  "worker_iteration cfg eng running st =
     (case get_timeout (audio_queue st) of
        Inl Empty \<Rightarrow> st
      | Inr (audio_chunk, q1) \<Rightarrow>
          let st1 = process_chunk cfg eng (st\<lparr>audio_queue := q1\<rparr>) audio_chunk in
          (case task_done (audio_queue st1) of
             Inr q2 \<Rightarrow> st1\<lparr>audio_queue := q2\<rparr>
           | Inl ex \<Rightarrow> (if running then log_event st1 [WorkerError ex] else st1)))"

text \<open>
  The worker thread's loop, for a value of \<open>running\<close> that stays as it is and with no
  producer: it may poll an empty queue for ever, so it is a partial function.
\<close>

partial_function (option) process_audio_worker ::
  "config \<Rightarrow> ('e, 'f) engine \<Rightarrow> bool \<Rightarrow> ('e, 'f) pipeline \<Rightarrow> ('e, 'f) pipeline option" where
  "process_audio_worker cfg eng running st =
     (if running \<or> items (audio_queue st) \<noteq> []
      then process_audio_worker cfg eng running (worker_iteration cfg eng running st)
      else Some st)"

text \<open>
  Where the worker thread stands while another thread looks at the queue: at the head
  of its loop (or inside the timed \<open>get\<close>), holding a chunk it has taken from the queue
  and not yet reported with \<open>task_done\<close>, or past its loop, which it leaves for good once
  it finds \<open>running\<close> false and the queue empty.
\<close>

datatype 'f worker_pos = AtLoopHead | Processing 'f | Exited

fun pending :: "'f worker_pos \<Rightarrow> 'f list" where
  "pending (Processing x) = [x]"
| "pending w = []"

text \<open>The rest of a pass through the loop body once \<open>get\<close> has returned the chunk.\<close>

definition finish_iteration ::
  "config \<Rightarrow> ('e, 'f) engine \<Rightarrow> bool \<Rightarrow> ('e, 'f) pipeline \<Rightarrow> 'f \<Rightarrow> ('e, 'f) pipeline" where
  "finish_iteration cfg eng running st audio_chunk =
     (let st1 = process_chunk cfg eng st audio_chunk in
      (case task_done (audio_queue st1) of
         Inr q2 \<Rightarrow> st1\<lparr>audio_queue := q2\<rparr>
       | Inl ex \<Rightarrow> (if running then log_event st1 [WorkerError ex] else st1)))"

text \<open>
  The next move of the worker thread from where it stands: the loop test and the
  \<open>get\<close>, or the rest of the pass.
\<close>

definition worker_move ::
  "config \<Rightarrow> ('e, 'f) engine \<Rightarrow> bool \<Rightarrow> 'f worker_pos \<Rightarrow> ('e, 'f) pipeline \<Rightarrow>
     'f worker_pos \<times> ('e, 'f) pipeline" where
  "worker_move cfg eng running w st =
     (case w of
        Exited \<Rightarrow> (Exited, st)
      | Processing audio_chunk \<Rightarrow>
          (AtLoopHead, finish_iteration cfg eng running st audio_chunk)
      | AtLoopHead \<Rightarrow>
          if running \<or> items (audio_queue st) \<noteq> []
          then (case get_timeout (audio_queue st) of
                  Inl Empty \<Rightarrow> (AtLoopHead, st)
                | Inr (audio_chunk, q1) \<Rightarrow> (Processing audio_chunk, st\<lparr>audio_queue := q1\<rparr>))
          else (Exited, st))"





text \<open>Projections of a trace: the calls into the engine, and the broadcasts issued.\<close>

fun is_engine_call :: "'f event \<Rightarrow> bool" where
  "is_engine_call (Fed x) = True"
| "is_engine_call Finished = True"
| "is_engine_call _ = False"



text \<open>
  Stepping the worker a given number of times, and the property that a step only adds
  to the trace events that are not engine calls, leaving queue and engine alone.
\<close>

fun iterate_worker ::
  "config \<Rightarrow> ('e, 'f) engine \<Rightarrow> bool \<Rightarrow> nat \<Rightarrow> ('e, 'f) pipeline \<Rightarrow> ('e, 'f) pipeline" where
  "iterate_worker cfg eng running 0 st = st"
| "iterate_worker cfg eng running (Suc n) st =
     iterate_worker cfg eng running n (worker_iteration cfg eng running st)"

definition quiet_step :: "('e, 'f) pipeline \<Rightarrow> ('e, 'f) pipeline \<Rightarrow> bool" where
  "quiet_step st st' \<longleftrightarrow>
     audio_queue st' = audio_queue st \<and> engine_state st' = engine_state st \<and>
     (\<exists>evs. trace st' = trace st @ evs \<and> filter is_engine_call evs = [])"


section \<open>The broadcast hub and the client sessions\<close>

text \<open>
  A wire message is the JSON value that \<open>json.dumps\<close> serialises and \<open>json.loads\<close>
  parses; an object is kept as its list of key/value pairs, one per key.
\<close>

datatype json =
    JNull
  | JBool bool
  | JNumber real
  | JString pystr
  | JArray "json list"
  | JObject "(pystr \<times> json) list"

definition transcript_message :: "pystr \<Rightarrow> real \<Rightarrow> json" where
  "transcript_message full_text now =
     JObject [(of_string ''type'', JString (of_string ''transcript'')),
              (of_string ''mode'', JString (of_string ''full'')),
              (of_string ''text'', JString full_text),
              (of_string ''timestamp'', JNumber now)]"

definition connected_message :: json where
  "connected_message =
     JObject [(of_string ''type'', JString (of_string ''connected'')),
              (of_string ''message'', JString (of_string ''Connected to transcription server''))]"

definition pong_message :: json where
  "pong_message = JObject [(of_string ''type'', JString (of_string ''pong''))]"

text \<open>
  How the subscribers behave during one broadcast. \<open>create_task\<close> of the send may raise
  for a connection. A send task that was created runs on its own from the moment the
  tasks are created (time \<open>0\<close> of the broadcast, in seconds): it ends at some time, by
  delivering the message, by raising \<open>ConnectionClosed\<close> or another exception, or by
  being cancelled; or it never ends.
\<close>

datatype send_end = Delivered | ClosedError | OtherError | Cancelled

datatype send_task = Never | Ends real send_end

record net =
  create_task_raises :: "conn \<Rightarrow> bool"
  send_task :: "conn \<Rightarrow> send_task"

text \<open>\<open>timeout=0.1\<close> seconds, the same for every subscriber.\<close>

definition send_timeout :: real where
  "send_timeout = 1 / 10"

text \<open>The first loop: one send task per connection; a raise marks the connection.\<close>

fun start_sends :: "net \<Rightarrow> conn list \<Rightarrow> conn list \<times> conn set" where
  "start_sends nt [] = ([], {})"
| "start_sends nt (c # cs) =
     (case start_sends nt cs of (send_tasks, disconnected) \<Rightarrow>
        if create_task_raises nt c then (send_tasks, insert c disconnected)
        else (c # send_tasks, disconnected))"

text \<open>
  \<open>await asyncio.wait_for(task, timeout)\<close> entered at time \<open>t\<close>: what the await gives and
  the time at which it is over. A task that has ended by \<open>t + timeout\<close> gives its own
  result, at once if it had ended before \<open>t\<close>; otherwise the await raises
  \<open>TimeoutError\<close> at \<open>t + timeout\<close> and the task is cancelled. Awaiting a cancelled task
  raises \<open>CancelledError\<close>.
\<close>

datatype wait_result =
  SendOk | SendTimeout | SendConnectionClosed | SendException | SendCancelled

fun result_of :: "send_end \<Rightarrow> wait_result" where
  "result_of Delivered = SendOk"
| "result_of ClosedError = SendConnectionClosed"
| "result_of OtherError = SendException"
| "result_of Cancelled = SendCancelled"

fun wait_for :: "send_task \<Rightarrow> real \<Rightarrow> real \<Rightarrow> wait_result \<times> real" where
  "wait_for Never t timeout = (SendTimeout, t + timeout)"
| "wait_for (Ends d e) t timeout =
     (if d \<le> t + timeout then (result_of e, max t d) else (SendTimeout, t + timeout))"

text \<open>
  \<open>asyncio.CancelledError\<close> is not an \<open>Exception\<close>: neither handler of the second loop
  catches it.
\<close>

datatype cancelled = CancelledError

text \<open>
  The second loop, entered at time \<open>t\<close>: the tasks are awaited one after the other,
  each under the timeout. A timeout, a closed connection or any other exception
  marks the connection; \<open>CancelledError\<close> leaves the loop and the function. The result
  lists the connections whose send was seen to complete, the marked connections, and
  the exception that left the loop, if any.
\<close>

fun await_sends :: "net \<Rightarrow> real \<Rightarrow> conn list \<Rightarrow> conn list \<times> conn set \<times> cancelled option" where
  "await_sends nt t [] = ([], {}, None)"
| "await_sends nt t (c # cs) =
     (case wait_for (send_task nt c) t send_timeout of
        (SendCancelled, t') \<Rightarrow> ([], {}, Some CancelledError)
      | (SendOk, t') \<Rightarrow>
          (case await_sends nt t' cs of
             (delivered, disconnected, raised) \<Rightarrow> (c # delivered, disconnected, raised))
      | (r, t') \<Rightarrow>
          (case await_sends nt t' cs of
             (delivered, disconnected, raised) \<Rightarrow> (delivered, insert c disconnected, raised)))"

text \<open>
  \<open>broadcast_full_transcript\<close>: the new module state, the messages delivered, each with
  the connection that received it, and the exception the call raised, if any. When
  \<open>CancelledError\<close> leaves the second loop, the loop that removes the marked
  connections is not reached.
\<close>

definition broadcast_full_transcript ::
  "net \<Rightarrow> real \<Rightarrow> server \<Rightarrow> pystr \<Rightarrow> server \<times> (conn \<times> json) list \<times> cancelled option" where
  "broadcast_full_transcript nt now s full_text =
     (if connections s = [] then (s, [], None)
      else
        let message = transcript_message full_text now in
        (case start_sends nt (connections s) of (send_tasks, disconnected1) \<Rightarrow>
           (case await_sends nt 0 send_tasks of (delivered, disconnected2, raised) \<Rightarrow>
              (case raised of
                 Some ex \<Rightarrow> (s, map (\<lambda>c. (c, message)) delivered, Some ex)
               | None \<Rightarrow>
                   (s\<lparr>connections :=
                         filter (\<lambda>c. c \<notin> disconnected1 \<union> disconnected2) (connections s)\<rparr>,
                    map (\<lambda>c. (c, message)) delivered, None)))))"

text \<open>
  The time at which the await that follows the awaits of the given tasks begins,
  when the first of them begins at \<open>t\<close>.
\<close>

fun clock_after :: "net \<Rightarrow> real \<Rightarrow> conn list \<Rightarrow> real" where
  "clock_after nt t [] = t"
| "clock_after nt t (c # cs) = clock_after nt (snd (wait_for (send_task nt c) t send_timeout)) cs"

text \<open>
  Concrete subscribers: \<open>1\<close> never accepts the data, \<open>2\<close> accepts it after 150 ms,
  and for \<open>3\<close> the send task cannot be created; and, for the second instance,
  a subscriber \<open>1\<close> whose send task is cancelled after 50 ms next to a subscriber \<open>2\<close>
  that never accepts the data.
\<close>

definition late_net :: net where
  "late_net =
     \<lparr>create_task_raises = (\<lambda>c. c = 3),
      send_task = (\<lambda>c. if c = 1 then Never else Ends (3 / 20) Delivered)\<rparr>"

definition cancelled_net :: net where
  "cancelled_net =
     \<lparr>create_task_raises = (\<lambda>c. False),
      send_task = (\<lambda>c. if c = 1 then Ends (1 / 20) Cancelled else Never)\<rparr>"

definition register :: "server \<Rightarrow> conn \<Rightarrow> server" where
  "register s websocket = s\<lparr>connections := List.insert websocket (connections s)\<rparr>"

definition unregister :: "server \<Rightarrow> conn \<Rightarrow> server" where
  "unregister s websocket = s\<lparr>connections := removeAll websocket (connections s)\<rparr>"

text \<open>
  A message received from a client, by what \<open>json.loads\<close> does with it: it raises
  \<open>JSONDecodeError\<close>, it raises something else (a binary frame that is not UTF-8), or
  it returns the parsed value.
\<close>

datatype loads = JSONDecodeError | LoadsRaises exn | Loaded json

text \<open>
  The body of \<open>async for message in websocket\<close>. \<open>sent\<close> lists what the session has
  sent so far; \<open>send_fails k\<close> says whether the send after \<open>k\<close> earlier ones raises
  \<open>ConnectionClosed\<close>. Only \<open>JSONDecodeError\<close> is handled here; \<open>data.get\<close> on a value
  that is not a dict raises \<open>AttributeError\<close>.
\<close>

definition handle_message :: "(nat \<Rightarrow> bool) \<Rightarrow> json list \<Rightarrow> loads \<Rightarrow> exn + json list" where
  "handle_message send_fails sent message =
     (case message of
        JSONDecodeError \<Rightarrow> Inr sent
      | LoadsRaises ex \<Rightarrow> Inl ex
      | Loaded data \<Rightarrow>
          (case data of
             JObject kvs \<Rightarrow>
               if map_of kvs (of_string ''type'') = Some (JString (of_string ''ping''))
               then (if send_fails (length sent) then Inl ConnectionClosed
                     else Inr (sent @ [pong_message]))
               else Inr sent
           | _ \<Rightarrow> Inl AttributeError))"

fun message_loop :: "(nat \<Rightarrow> bool) \<Rightarrow> json list \<Rightarrow> loads list \<Rightarrow> exn option \<times> json list" where
  "message_loop send_fails sent [] = (None, sent)"
| "message_loop send_fails sent (message # rest) =
     (case handle_message send_fails sent message of
        Inl ex \<Rightarrow> (Some ex, sent)
      | Inr sent' \<Rightarrow> message_loop send_fails sent' rest)"

text \<open>
  \<open>handle_client\<close> for a connection that receives the given messages and is then closed
  by the client: the module state after \<open>unregister\<close>, everything sent to the client,
  and the exception printed as "Error in connection handler", if any
  (\<open>ConnectionClosed\<close> is passed over in silence).
\<close>

definition handle_client ::
  "(nat \<Rightarrow> bool) \<Rightarrow> server \<Rightarrow> conn \<Rightarrow> loads list \<Rightarrow> server \<times> json list \<times> exn option" where
  "handle_client send_fails s websocket messages =
     (let s1 = register s websocket;
          (raised, sent) =
            (if send_fails 0 then (Some ConnectionClosed, [])
             else message_loop send_fails [connected_message] messages)
      in (unregister s1 websocket, sent,
          (case raised of
             None \<Rightarrow> None
           | Some ex \<Rightarrow> (if ex = ConnectionClosed then None else Some ex))))"

definition ping_message :: json where
  "ping_message = JObject [(of_string ''type'', JString (of_string ''ping''))]"




section \<open>Auxiliary definitions for the proofs\<close>

text \<open>The state in which a step of the worker's body ends, whether it raised or not.\<close>

definition state_of :: "(exn \<times> 'a) + 'a \<Rightarrow> 'a" where
  "state_of r = (case r of Inl (ex, st) \<Rightarrow> st | Inr st \<Rightarrow> st)"

text \<open>
  Concrete instances: the configuration under which the server starts the
  transcription (its own callback, called from a thread without an event loop, no
  file sink); an engine that raises on frame \<open>0\<close>, commits the given word for every
  other frame and yields the given text on \<open>finish\<close>; and a pipeline at the moment the
  stream has been closed, with the given frames still queued.
\<close>

definition server_config :: config where
  "server_config = \<lparr>callback = Some NoCurrentLoop, output_file = False, json_output = False\<rparr>"

definition scripted_engine :: "pystr \<Rightarrow> pystr \<Rightarrow> (nat, nat) engine" where
  "scripted_engine word final =
     \<lparr>insert_audio_chunk =
        (\<lambda>e x. if x = 0 then (e, Inl (Exception ''bad frame'')) else (e + 1, Inr ())),
      process_iter = (\<lambda>e. (e, Inr (Some 0, Some 1, Some word))),
      finish = (\<lambda>e. (0, Inr (None, None, Some final)))\<rparr>"

definition pipeline_with :: "'e \<Rightarrow> 'f list \<Rightarrow> ('e, 'f) pipeline" where
  "pipeline_with e frames =
     \<lparr>engine_state = e,
      audio_queue = \<lparr>maxsize = 5, items = frames, unfinished_tasks = length frames\<rparr>,
      srv = initial_server,
      trace = []\<rparr>"


section \<open>Facts about \<open>strip\<close>\<close>

lemma strip_Nil: "strip [] = []"
  by (simp add: strip_def lstrip_def rstrip_def)

lemma strip_ends:
  assumes "strip s \<noteq> []"
  shows "\<not> isspace (hd (strip s))" and "\<not> isspace (last (strip s))"
proof -
  let ?a = "dropWhile isspace s"
  let ?r = "dropWhile isspace (rev ?a)"
  have s: "strip s = rev ?r"
    by (simp add: strip_def lstrip_def rstrip_def)
  from assms s have r: "?r \<noteq> []" by simp
  have a: "?a \<noteq> []"
  proof
    assume e: "?a = []"
    have "?r = []" unfolding e by simp
    with r show False by contradiction
  qed
  have "rev ?a = takeWhile isspace (rev ?a) @ ?r" by simp
  then have "last (rev ?a) = last ?r"
    using r by (metis last_appendR)
  then have "last ?r = hd ?a"
    using a by (simp add: last_rev)
  moreover have "\<not> isspace (hd ?a)"
    using a by (rule hd_dropWhile)
  ultimately show "\<not> isspace (hd (strip s))"
    using r s by (simp add: hd_rev)
  have "\<not> isspace (hd ?r)"
    using r by (rule hd_dropWhile)
  then show "\<not> isspace (last (strip s))"
    using r s by (simp add: last_rev)
qed

lemma strip_fixed:
  assumes "s = [] \<or> (\<not> isspace (hd s) \<and> \<not> isspace (last s))"
  shows "strip s = s"
proof (cases "s = []")
  case True
  then show ?thesis by (simp add: strip_Nil)
next
  case False
  with assms have h: "\<not> isspace (hd s)" and l: "\<not> isspace (last s)" by auto
  from False h have "dropWhile isspace s = s"
    by (simp add: dropWhile_eq_self_iff)
  moreover from False l have "dropWhile isspace (rev s) = rev s"
    by (simp add: dropWhile_eq_self_iff hd_rev)
  ultimately show ?thesis
    by (simp add: strip_def lstrip_def rstrip_def)
qed

lemma strip_idem: "strip (strip s) = strip s"
  by (rule strip_fixed) (use strip_ends [of s] in blast)

lemma strip_join:
  assumes c: "strip c = c" "c \<noteq> []" and t: "strip t = t" "t \<noteq> []"
  shows "strip (c @ space @ t) = c @ space @ t"
proof (rule strip_fixed)
  have "\<not> isspace (hd c)"
    using strip_ends(1) [of c] c by simp
  moreover have "\<not> isspace (last t)"
    using strip_ends(2) [of t] t by simp
  ultimately show "c @ space @ t = [] \<or>
      (\<not> isspace (hd (c @ space @ t)) \<and> \<not> isspace (last (c @ space @ t)))"
    using c t by (simp add: space_def)
qed

lemma new_text_of_stripped: "strip (new_text_of text) = new_text_of text"
  by (simp add: new_text_of_def strip_Nil strip_idem split: option.splits)

lemma new_text_of_None: "new_text_of None = []"
  by (simp add: new_text_of_def)


section \<open>Facts about the accumulator\<close>

lemma callback_transcript:
  "full_transcript (fst (transcript_callback env s (st, en, text))) =
     (if new_text_of text = [] then full_transcript s
      else if full_transcript s = [] then new_text_of text
      else strip (full_transcript s @ space @ new_text_of text))"
  by (simp add: transcript_callback_def Let_def)

lemma callback_stripped:
  assumes "strip (full_transcript s) = full_transcript s"
  shows "strip (full_transcript (fst (transcript_callback env s sp))) =
         full_transcript (fst (transcript_callback env s sp))"
proof -
  obtain st en tx where sp: "sp = (st, en, tx)"
    by (cases sp) auto
  show ?thesis
    unfolding sp callback_transcript
    using assms by (simp add: strip_idem new_text_of_stripped)
qed

lemma callbacks_stripped:
  "strip (full_transcript s) = full_transcript s \<Longrightarrow>
   strip (full_transcript (callbacks s calls)) = full_transcript (callbacks s calls)"
proof (induction calls arbitrary: s)
  case Nil
  then show ?case by simp
next
  case (Cons call calls)
  obtain env sp where call: "call = (env, sp)"
    by (cases call) auto
  show ?case
    unfolding call callbacks.simps
    by (rule Cons.IH) (rule callback_stripped [OF Cons.prems])
qed

lemma callbacks_append:
  "callbacks s (xs @ ys) = callbacks (callbacks s xs) ys"
  by (induction xs arbitrary: s) auto

lemma fresh_stripped:
  "full_transcript s = [] \<Longrightarrow> strip (full_transcript s) = full_transcript s"
  by (simp add: strip_Nil)

text \<open>On a transcript that is its own strip, the fold is plain concatenation.\<close>

lemma callback_on_stripped:
  assumes "strip (full_transcript s) = full_transcript s"
  shows "full_transcript (fst (transcript_callback env s (st, en, text))) =
     (if new_text_of text = [] then full_transcript s
      else if full_transcript s = [] then new_text_of text
      else full_transcript s @ space @ new_text_of text)"
  unfolding callback_transcript
  using assms by (simp add: strip_join new_text_of_stripped)

lemma callback_prefix:
  assumes "strip (full_transcript s) = full_transcript s"
  shows "prefix (full_transcript s) (full_transcript (fst (transcript_callback env s sp)))"
proof -
  obtain st en tx where sp: "sp = (st, en, tx)"
    by (cases sp) auto
  show ?thesis
    unfolding sp callback_on_stripped [OF assms] by simp
qed

lemma callbacks_prefix:
  "strip (full_transcript s) = full_transcript s \<Longrightarrow>
   prefix (full_transcript s) (full_transcript (callbacks s calls))"
proof (induction calls arbitrary: s)
  case Nil
  then show ?case by simp
next
  case (Cons call calls)
  obtain env sp where call: "call = (env, sp)"
    by (cases call) auto
  let ?s' = "fst (transcript_callback env s sp)"
  have "prefix (full_transcript s) (full_transcript ?s')"
    by (rule callback_prefix [OF Cons.prems])
  moreover have "prefix (full_transcript ?s') (full_transcript (callbacks ?s' calls))"
    by (rule Cons.IH) (rule callback_stripped [OF Cons.prems])
  ultimately show ?case
    unfolding call callbacks.simps by (rule prefix_order.trans)
qed

lemma strip_whitespace_only:
  assumes "list_all isspace ws"
  shows "strip ws = []"
proof -
  from assms have d: "dropWhile isspace ws = []"
    by (simp add: list_all_iff dropWhile_eq_Nil_conv)
  show ?thesis
    unfolding strip_def lstrip_def rstrip_def d by simp
qed

lemma callback_whitespace_only:
  "list_all isspace ws \<Longrightarrow> transcript_callback env s (st, en, Some ws) = (s, [])"
  by (simp add: transcript_callback_def new_text_of_def strip_whitespace_only)

lemma callbacks_same_texts:
  "full_transcript s1 = full_transcript s2 \<Longrightarrow> map snd calls1 = map snd calls2 \<Longrightarrow>
   full_transcript (callbacks s1 calls1) = full_transcript (callbacks s2 calls2)"
proof (induction calls1 arbitrary: calls2 s1 s2)
  case Nil
  then show ?case by simp
next
  case (Cons call1 rest1)
  from Cons.prems(2) obtain call2 rest2 where c2: "calls2 = call2 # rest2"
    and sp: "snd call1 = snd call2" and rest: "map snd rest1 = map snd rest2"
    by (cases calls2) auto
  obtain e1 st en tx where call1: "call1 = (e1, st, en, tx)"
    by (cases call1) auto
  with sp obtain e2 where call2: "call2 = (e2, st, en, tx)"
    by (cases call2) auto
  have "full_transcript (fst (transcript_callback e1 s1 (st, en, tx))) =
        full_transcript (fst (transcript_callback e2 s2 (st, en, tx)))"
    unfolding callback_transcript using Cons.prems(1) by simp
  then show ?case
    unfolding c2 call1 call2 callbacks.simps using rest by (rule Cons.IH)
qed

lemmas eval_defs =
  transcript_callback_def new_text_of_def schedule_broadcast_def strip_def lstrip_def
  rstrip_def isspace_def space_def of_string_def text_span_def initial_server_def Let_def


section \<open>The accumulator: claims\<close>

text \<open>
  C1. The fold of the accumulator: with \<open>t\<close> the stripped text of the incoming span, an
  empty \<open>t\<close> leaves the canonical transcript unchanged; otherwise an empty transcript
  becomes \<open>t\<close> and a non-empty one becomes the old transcript, one space, then \<open>t\<close>.
  This holds in every state the accumulator reaches from an empty transcript.
  Folding "Hello", "world", "" into the fresh accumulator gives exactly "Hello world".
\<close>

theorem fold_behaviour:
  "full_transcript s0 = [] \<Longrightarrow>
   full_transcript (fst (transcript_callback env (callbacks s0 calls) (st, en, Some tx))) =
     (let c = full_transcript (callbacks s0 calls); t = strip tx in
      if t = [] then c else if c = [] then t else c @ space @ t)
   \<and> full_transcript (callbacks initial_server
         [(e1, text_span ''Hello''), (e2, text_span ''world''), (e3, text_span [])]) =
       of_string ''Hello world''"
proof
  assume fresh: "full_transcript s0 = []"
  have inv: "strip (full_transcript (callbacks s0 calls)) = full_transcript (callbacks s0 calls)"
    by (rule callbacks_stripped) (rule fresh_stripped [OF fresh])
  have t: "new_text_of (Some tx) = strip tx"
    by (simp add: new_text_of_def strip_Nil)
  show "full_transcript (fst (transcript_callback env (callbacks s0 calls) (st, en, Some tx))) =
     (let c = full_transcript (callbacks s0 calls); t = strip tx in
      if t = [] then c else if c = [] then t else c @ space @ t)"
    unfolding callback_on_stripped [OF inv] t Let_def by (rule refl)
next
  show "full_transcript (callbacks initial_server
         [(e1, text_span ''Hello''), (e2, text_span ''world''), (e3, text_span [])]) =
       of_string ''Hello world''"
    by (simp add: eval_defs)
qed

theorem fold_behaviour_witness:
  "full_transcript initial_server = [] \<and>
   full_transcript (fst (transcript_callback NoCurrentLoop
       (callbacks initial_server [(LoopRunning, text_span '' Hello '')])
       (None, None, Some (of_string ''world  '')))) = of_string ''Hello world''"
  using fold_behaviour [of initial_server NoCurrentLoop
      "[(LoopRunning, text_span '' Hello '')]" None None "of_string ''world  ''"]
  by (simp add: eval_defs)

text \<open>
  C2. Over any sequence of folds starting from the empty transcript, the canonical
  transcript never gets shorter, what it held before stays as a prefix of what it holds
  after, and a span whose text is empty or only whitespace changes nothing at all
  (the state is returned as it was and nothing is logged or broadcast).
\<close>

theorem transcript_monotonic:
  "full_transcript s0 = [] \<Longrightarrow>
   length (full_transcript (callbacks s0 calls)) \<le>
     length (full_transcript (callbacks s0 (calls @ later))) \<and>
   prefix (full_transcript (callbacks s0 calls))
     (full_transcript (callbacks s0 (calls @ later))) \<and>
   (list_all isspace ws \<longrightarrow>
      transcript_callback env (callbacks s0 calls) (st, en, Some ws) = (callbacks s0 calls, []))"
proof -
  assume fresh: "full_transcript s0 = []"
  have inv: "strip (full_transcript (callbacks s0 calls)) = full_transcript (callbacks s0 calls)"
    by (rule callbacks_stripped) (rule fresh_stripped [OF fresh])
  have p: "prefix (full_transcript (callbacks s0 calls))
     (full_transcript (callbacks s0 (calls @ later)))"
    unfolding callbacks_append by (rule callbacks_prefix [OF inv])
  then have "length (full_transcript (callbacks s0 calls)) \<le>
     length (full_transcript (callbacks s0 (calls @ later)))"
    by (rule prefix_length_le)
  with p show ?thesis
    by (simp add: callback_whitespace_only)
qed

theorem transcript_monotonic_witness:
  "full_transcript initial_server = [] \<and>
   full_transcript (callbacks initial_server [(NoCurrentLoop, text_span ''a'')]) = of_string ''a'' \<and>
   full_transcript (callbacks initial_server
      ([(NoCurrentLoop, text_span ''a'')] @ [(LoopRunning, text_span '' b'')])) = of_string ''a b'' \<and>
   prefix (of_string ''a'') (of_string ''a b'') \<and>
   list_all isspace (of_string ''  '') \<and>
   transcript_callback LoopRunning (callbacks initial_server [(NoCurrentLoop, text_span ''a'')])
      (None, None, Some (of_string ''  '')) =
     (callbacks initial_server [(NoCurrentLoop, text_span ''a'')], [])"
  using transcript_monotonic [of initial_server "[(NoCurrentLoop, text_span ''a'')]"
      "[(LoopRunning, text_span '' b'')]" "of_string ''  ''" LoopRunning None None]
  by (simp add: eval_defs)

text \<open>
  C8. Determinism of the accumulator: two runs that start from an empty transcript and
  fold the same sequence of spans end with the same transcript, whatever else differs
  between the runs (the connection set, the update counter, the event-loop situation
  of each call).
\<close>

theorem accumulator_deterministic:
  "full_transcript s1 = [] \<Longrightarrow> full_transcript s2 = [] \<Longrightarrow>
   map snd calls1 = map snd calls2 \<Longrightarrow>
   full_transcript (callbacks s1 calls1) = full_transcript (callbacks s2 calls2)"
proof -
  assume "full_transcript s1 = []" and "full_transcript s2 = []"
  then have same_start: "full_transcript s1 = full_transcript s2"
    by simp
  assume same_spans: "map snd calls1 = map snd calls2"
  from same_start same_spans show ?thesis
    by (rule callbacks_same_texts)
qed

theorem accumulator_deterministic_witness:
  "full_transcript initial_server = [] \<and>
   full_transcript (initial_server\<lparr>connections := [7], update_count := 9\<rparr>) = [] \<and>
   map snd [(LoopRunning, text_span ''Hello''), (LoopRunning, text_span '' world '')] =
   map snd [(NoCurrentLoop, text_span ''Hello''), (LoopNotRunning, text_span '' world '')] \<and>
   full_transcript (callbacks initial_server
      [(LoopRunning, text_span ''Hello''), (LoopRunning, text_span '' world '')]) =
   full_transcript (callbacks (initial_server\<lparr>connections := [7], update_count := 9\<rparr>)
      [(NoCurrentLoop, text_span ''Hello''), (LoopNotRunning, text_span '' world '')])"
  using accumulator_deterministic [of initial_server
      "initial_server\<lparr>connections := [7], update_count := 9\<rparr>"
      "[(LoopRunning, text_span ''Hello''), (LoopRunning, text_span '' world '')]"
      "[(NoCurrentLoop, text_span ''Hello''), (LoopNotRunning, text_span '' world '')]"]
  by (simp add: eval_defs)

text \<open>
  C9. Every transcript reachable from the empty one is free of leading and trailing
  whitespace: it is equal to its own strip after every fold.
\<close>

theorem transcript_stripped:
  "full_transcript s0 = [] \<Longrightarrow>
   strip (full_transcript (callbacks s0 calls)) = full_transcript (callbacks s0 calls)"
  by (rule callbacks_stripped) (rule fresh_stripped)

theorem transcript_stripped_witness:
  "full_transcript initial_server = [] \<and>
   full_transcript (callbacks initial_server
      [(LoopRunning, text_span ''  Hi ''), (LoopRunning, text_span '' there  '')]) =
     of_string ''Hi there'' \<and>
   strip (full_transcript (callbacks initial_server
      [(LoopRunning, text_span ''  Hi ''), (LoopRunning, text_span '' there  '')])) =
   full_transcript (callbacks initial_server
      [(LoopRunning, text_span ''  Hi ''), (LoopRunning, text_span '' there  '')])"
  using transcript_stripped [of initial_server
      "[(LoopRunning, text_span ''  Hi ''), (LoopRunning, text_span '' there  '')]"]
  by (simp add: eval_defs)

text \<open>
  C10. A callback whose text is \<open>None\<close> is a no-op: the \<open>None\<close> counts as empty text,
  the call returns normally, and the state (the canonical transcript included) is
  returned unchanged with nothing logged or broadcast.
\<close>

theorem none_text_noop:
  "transcript_callback env s (st, en, None) = (s, [])"
  by (simp add: transcript_callback_def new_text_of_None)


section \<open>The ingest queue: facts and claim\<close>

lemma audio_callback_running:
  "audio_callback True q x =
     Inr (if 0 < maxsize q \<and> maxsize q \<le> int (length (items q)) then q
          else q\<lparr>items := items q @ [x], unfinished_tasks := unfinished_tasks q + 1\<rparr>)"
  by (simp add: audio_callback_def put_nowait_def)

lemma run_ops_maxsize: "maxsize (fst (run_ops q ops)) = maxsize q"
proof (induction ops arbitrary: q)
  case Nil
  then show ?case by simp
next
  case (Cons op ops)
  show ?case
  proof (cases op)
    case (Arrive x)
    then show ?thesis
      by (simp add: audio_callback_running Cons.IH)
  next
    case Take
    show ?thesis
    proof (cases "items q")
      case Nil
      then show ?thesis
        using Take by (simp add: get_timeout_def Cons.IH)
    next
      case (Cons y rest)
      have "maxsize (fst (run_ops (q\<lparr>items := rest\<rparr>) ops)) = maxsize q"
        by (simp add: Cons.IH)
      then show ?thesis
        using Take Cons by (simp add: get_timeout_def case_prod_beta)
    qed
  qed
qed

lemma run_ops_bound:
  "0 < maxsize q \<Longrightarrow> int (length (items q)) \<le> maxsize q \<Longrightarrow>
   int (length (items (fst (run_ops q ops)))) \<le> maxsize q"
proof (induction ops arbitrary: q)
  case Nil
  then show ?case by simp
next
  case (Cons op ops)
  show ?case
  proof (cases op)
    case (Arrive x)
    let ?q' = "q\<lparr>items := items q @ [x], unfinished_tasks := unfinished_tasks q + 1\<rparr>"
    show ?thesis
    proof (cases "maxsize q \<le> int (length (items q))")
      case True
      then show ?thesis
        using Arrive Cons.prems Cons.IH [of q] by (simp add: audio_callback_running)
    next
      case False
      then have "int (length (items ?q')) \<le> maxsize ?q'" by simp
      moreover have "0 < maxsize ?q'" using Cons.prems by simp
      ultimately have "int (length (items (fst (run_ops ?q' ops)))) \<le> maxsize ?q'"
        by (rule Cons.IH [rotated])
      then show ?thesis
        using Arrive False by (simp add: audio_callback_running)
    qed
  next
    case Take
    show ?thesis
    proof (cases "items q")
      case Nil
      then show ?thesis
        using Take Cons.prems Cons.IH [of q] by (simp add: get_timeout_def)
    next
      case (Cons y rest)
      let ?q' = "q\<lparr>items := rest\<rparr>"
      have "int (length (items ?q')) \<le> maxsize ?q'"
        using Cons.prems Cons by simp
      moreover have "0 < maxsize ?q'" using Cons.prems by simp
      ultimately have "int (length (items (fst (run_ops ?q' ops)))) \<le> maxsize ?q'"
        by (rule Cons.IH [rotated])
      then show ?thesis
        using Take Cons by (simp add: get_timeout_def case_prod_beta)
    qed
  qed
qed

lemma run_ops_fifo:
  "subseq (snd (run_ops q ops) @ items (fst (run_ops q ops))) (items q @ arrivals ops)"
proof (induction ops arbitrary: q)
  case Nil
  then show ?case by simp
next
  case (Cons op ops)
  show ?case
  proof (cases op)
    case (Arrive x)
    let ?q' = "q\<lparr>items := items q @ [x], unfinished_tasks := unfinished_tasks q + 1\<rparr>"
    show ?thesis
    proof (cases "0 < maxsize q \<and> maxsize q \<le> int (length (items q))")
      case True
      have "subseq (snd (run_ops q ops) @ items (fst (run_ops q ops))) (items q @ arrivals ops)"
        by (rule Cons.IH)
      also have "subseq (items q @ arrivals ops) (items q @ x # arrivals ops)"
        by (auto simp add: subseq_append')
      finally show ?thesis
        using Arrive True by (simp add: audio_callback_running)
    next
      case False
      from False have cb: "audio_callback True q x = Inr ?q'"
        unfolding audio_callback_running by (rule arg_cong [OF if_not_P])
      have "subseq (snd (run_ops ?q' ops) @ items (fst (run_ops ?q' ops)))
              (items ?q' @ arrivals ops)"
        by (rule Cons.IH)
      then show ?thesis
        using Arrive by (simp add: cb)
    qed
  next
    case Take
    show ?thesis
    proof (cases "items q")
      case Nil
      then show ?thesis
        using Take Cons.IH [of q] by (simp add: get_timeout_def)
    next
      case (Cons y rest)
      let ?q' = "q\<lparr>items := rest\<rparr>"
      have "subseq (snd (run_ops ?q' ops) @ items (fst (run_ops ?q' ops)))
              (items ?q' @ arrivals ops)"
        by (rule Cons.IH)
      then show ?thesis
        using Take Cons by (simp add: get_timeout_def case_prod_beta)
    qed
  qed
qed

text \<open>
  C3. For any interleaving of arriving frames and worker reads on the ingest queue of
  capacity \<open>n\<close> (the code creates it with capacity 5), the queue never holds more than
  \<open>n\<close> frames; on a full queue the capture callback returns normally and leaves the
  queue exactly as it was, so the arriving frame is the one dropped and the oldest is
  kept; on a queue that is not full the frame goes to the back; and the frames the
  worker has read followed by the frames still queued are, in this order, a
  subsequence of the arrivals, so retained frames keep their arrival order.
\<close>

theorem ingest_queue_bounded:
  "0 < n \<Longrightarrow>
   int (length (items (fst (run_ops (Queue n) ops)))) \<le> n \<and>
   (int (length (items (fst (run_ops (Queue n) ops)))) = n \<longrightarrow>
      audio_callback True (fst (run_ops (Queue n) ops)) x = Inr (fst (run_ops (Queue n) ops))) \<and>
   (int (length (items (fst (run_ops (Queue n) ops)))) < n \<longrightarrow>
      (\<exists>q'. audio_callback True (fst (run_ops (Queue n) ops)) x = Inr q' \<and>
            items q' = items (fst (run_ops (Queue n) ops)) @ [x])) \<and>
   subseq (snd (run_ops (Queue n) ops) @ items (fst (run_ops (Queue n) ops))) (arrivals ops)"
proof -
  assume n: "0 < n"
  let ?q = "fst (run_ops (Queue n) ops)"
  have m: "maxsize ?q = n"
    by (simp add: run_ops_maxsize Queue_def)
  have b: "int (length (items ?q)) \<le> n"
    using run_ops_bound [of "Queue n" ops] n by (simp add: Queue_def)
  have f: "subseq (snd (run_ops (Queue n) ops) @ items ?q) (arrivals ops)"
    using run_ops_fifo [of "Queue n" ops] by (simp add: Queue_def)
  have full: "int (length (items ?q)) = n \<longrightarrow> audio_callback True ?q x = Inr ?q"
    using n m by (simp add: audio_callback_running)
  have room: "int (length (items ?q)) < n \<longrightarrow>
      (\<exists>q'. audio_callback True ?q x = Inr q' \<and> items q' = items ?q @ [x])"
    using m by (simp add: audio_callback_running)
  from b full room f show ?thesis by blast
qed

theorem ingest_queue_bounded_witness:
  "(0::int) < 5 \<and>
   run_ops (audio_queue_new :: nat pyqueue)
     [Arrive 1, Arrive 2, Arrive 3, Arrive 4, Arrive 5, Arrive 6, Take, Arrive 7] =
     (\<lparr>maxsize = 5, items = [2, 3, 4, 5, 7], unfinished_tasks = 6\<rparr>, [1]) \<and>
   audio_callback True \<lparr>maxsize = 5, items = [2, 3, 4, 5, 7::nat], unfinished_tasks = 6\<rparr> 8 =
     Inr \<lparr>maxsize = 5, items = [2, 3, 4, 5, 7], unfinished_tasks = 6\<rparr> \<and>
   subseq [1, 2, 3, 4, 5, 7] (arrivals
     [Arrive 1, Arrive 2, Arrive 3, Arrive 4, Arrive 5, Arrive 6, Take, Arrive (7::nat)])"
  using ingest_queue_bounded [of 5
      "[Arrive 1, Arrive 2, Arrive 3, Arrive 4, Arrive 5, Arrive 6, Take, Arrive (7::nat)]" 8]
  by (simp add: audio_queue_new_def Queue_def audio_callback_def put_nowait_def get_timeout_def)


section \<open>The broadcast hub: facts and claim\<close>

lemma start_sends_eq:
  "start_sends nt cs =
     (filter (\<lambda>c. \<not> create_task_raises nt c) cs, {c \<in> set cs. create_task_raises nt c})"
  by (induction cs) auto

lemma wait_for_ok:
  "fst (wait_for task t timeout) = SendOk \<longleftrightarrow>
     (\<exists>d. task = Ends d Delivered \<and> d \<le> t + timeout)"
proof (cases task)
  case Never
  then show ?thesis by simp
next
  case (Ends d e)
  then show ?thesis by (cases e) simp_all
qed

lemma wait_for_clock:
  assumes "0 \<le> timeout"
  shows "t \<le> snd (wait_for task t timeout)" and "snd (wait_for task t timeout) \<le> t + timeout"
  using assms by (cases task; simp)+

lemma clock_after_bounds:
  "t \<le> clock_after nt t cs \<and> clock_after nt t cs \<le> t + send_timeout * real (length cs)"
proof (induction cs arbitrary: t)
  case Nil
  then show ?case by simp
next
  case (Cons c cs)
  let ?t' = "snd (wait_for (send_task nt c) t send_timeout)"
  have pos: "0 \<le> send_timeout"
    by (simp add: send_timeout_def)
  from wait_for_clock [OF pos, where t = t and task = "send_task nt c"]
  have "t \<le> ?t'" and "?t' \<le> t + send_timeout" .
  moreover from Cons.IH [of ?t']
  have "?t' \<le> clock_after nt ?t' cs"
    and "clock_after nt ?t' cs \<le> ?t' + send_timeout * real (length cs)"
    by simp_all
  ultimately show ?case
    by (simp add: algebra_simps)
qed

text \<open>One pass of the second loop, with the case distinction written out.\<close>

lemma await_sends_Cons:
  "await_sends nt t (c # cs) =
     (if fst (wait_for (send_task nt c) t send_timeout) = SendCancelled
      then ([], {}, Some CancelledError)
      else if fst (wait_for (send_task nt c) t send_timeout) = SendOk
      then (c # fst (await_sends nt (snd (wait_for (send_task nt c) t send_timeout)) cs),
            snd (await_sends nt (snd (wait_for (send_task nt c) t send_timeout)) cs))
      else (fst (await_sends nt (snd (wait_for (send_task nt c) t send_timeout)) cs),
            insert c (fst (snd (await_sends nt (snd (wait_for (send_task nt c) t send_timeout)) cs))),
            snd (snd (await_sends nt (snd (wait_for (send_task nt c) t send_timeout)) cs))))"
  by (simp split: prod.splits wait_result.splits)

lemma await_sends_within:
  "set (fst (await_sends nt t cs)) \<subseteq> set cs \<and> fst (snd (await_sends nt t cs)) \<subseteq> set cs"
proof (induction cs arbitrary: t)
  case Nil
  then show ?case by simp
next
  case (Cons c cs)
  let ?t' = "snd (wait_for (send_task nt c) t send_timeout)"
  from Cons.IH [of ?t'] show ?case
    unfolding await_sends_Cons by auto
qed

lemma await_sends_normal:
  "snd (snd (await_sends nt t cs)) = None \<Longrightarrow> distinct cs \<Longrightarrow>
   fst (await_sends nt t cs) = filter (\<lambda>c. c \<notin> fst (snd (await_sends nt t cs))) cs \<and>
   (\<forall>pre c post. cs = pre @ c # post \<longrightarrow>
      (c \<notin> fst (snd (await_sends nt t cs)) \<longleftrightarrow>
       fst (wait_for (send_task nt c) (clock_after nt t pre) send_timeout) = SendOk))"
proof (induction cs arbitrary: t)
  case Nil
  then show ?case by simp
next
  case (Cons a cs)
  let ?r = "fst (wait_for (send_task nt a) t send_timeout)"
  let ?t' = "snd (wait_for (send_task nt a) t send_timeout)"
  let ?rest = "await_sends nt ?t' cs"
  from Cons.prems(1) have nc: "?r \<noteq> SendCancelled"
    unfolding await_sends_Cons by (auto split: if_splits)
  with Cons.prems(1) have normal: "snd (snd ?rest) = None"
    unfolding await_sends_Cons by (auto split: if_splits)
  from Cons.prems(2) have fresh: "a \<notin> set cs" and dist: "distinct cs"
    by simp_all
  note ih = Cons.IH [OF normal dist]
  from await_sends_within [of nt ?t' cs] fresh
  have out: "a \<notin> fst (snd ?rest)"
    by blast
  have disc: "fst (snd (await_sends nt t (a # cs))) =
      (if ?r = SendOk then fst (snd ?rest) else insert a (fst (snd ?rest)))"
    using nc unfolding await_sends_Cons by simp
  have del: "fst (await_sends nt t (a # cs)) =
      (if ?r = SendOk then a # fst ?rest else fst ?rest)"
    using nc unfolding await_sends_Cons by simp
  have same: "filter (\<lambda>c. c \<notin> insert a (fst (snd ?rest))) cs =
      filter (\<lambda>c. c \<notin> fst (snd ?rest)) cs"
    using fresh by (intro filter_cong) auto
  have 1: "fst (await_sends nt t (a # cs)) =
      filter (\<lambda>c. c \<notin> fst (snd (await_sends nt t (a # cs)))) (a # cs)"
    unfolding disc del using ih out same by simp
  have 2: "\<forall>pre c post. a # cs = pre @ c # post \<longrightarrow>
      (c \<notin> fst (snd (await_sends nt t (a # cs))) \<longleftrightarrow>
       fst (wait_for (send_task nt c) (clock_after nt t pre) send_timeout) = SendOk)"
  proof (intro allI impI)
    fix pre c post
    assume split: "a # cs = pre @ c # post"
    show "c \<notin> fst (snd (await_sends nt t (a # cs))) \<longleftrightarrow>
       fst (wait_for (send_task nt c) (clock_after nt t pre) send_timeout) = SendOk"
    proof (cases pre)
      case Nil
      with split have "c = a" by simp
      then show ?thesis
        unfolding disc Nil using out by simp
    next
      case (Cons b pre')
      with split have b: "b = a" and cs: "cs = pre' @ c # post"
        by simp_all
      from cs fresh have "c \<noteq> a" by auto
      moreover from ih cs
      have "c \<notin> fst (snd ?rest) \<longleftrightarrow>
          fst (wait_for (send_task nt c) (clock_after nt ?t' pre') send_timeout) = SendOk"
        by blast
      ultimately show ?thesis
        unfolding disc Cons b by simp
    qed
  qed
  from 1 2 show ?case by blast
qed

text \<open>A broadcast that returns normally keeps exactly the connections it delivered to.\<close>

lemma broadcast_normal:
  assumes run: "broadcast_full_transcript nt now s full_text = (s', delivered, None)"
    and dist: "distinct (connections s)"
  shows "connections s' =
      fst (await_sends nt 0 (filter (\<lambda>c. \<not> create_task_raises nt c) (connections s)))"
    and "delivered = map (\<lambda>c. (c, transcript_message full_text now)) (connections s')"
    and "snd (snd (await_sends nt 0 (filter (\<lambda>c. \<not> create_task_raises nt c) (connections s)))) = None"
    and "s' = s\<lparr>connections := connections s'\<rparr>"
proof -
  let ?tasks = "filter (\<lambda>c. \<not> create_task_raises nt c) (connections s)"
  let ?a = "await_sends nt 0 ?tasks"
  have normal: "snd (snd ?a) = None"
  proof (cases "connections s = []")
    case True
    then show ?thesis by simp
  next
    case False
    with run show ?thesis
      unfolding broadcast_full_transcript_def start_sends_eq Let_def
      by (auto split: prod.splits option.splits)
  qed
  have dt: "distinct ?tasks"
    using dist by simp
  from await_sends_normal [OF normal dt]
  have del: "fst ?a = filter (\<lambda>c. c \<notin> fst (snd ?a)) ?tasks"
    by blast
  have keep: "filter (\<lambda>c. c \<notin> {c \<in> set (connections s). create_task_raises nt c} \<union> fst (snd ?a))
      (connections s) = fst ?a"
    by (subst del) (auto intro: filter_cong)
  have both: "s' = s\<lparr>connections := fst ?a\<rparr> \<and>
      delivered = map (\<lambda>c. (c, transcript_message full_text now)) (fst ?a)"
  proof (cases "connections s = []")
    case True
    with run show ?thesis
      by (simp add: broadcast_full_transcript_def)
  next
    case False
    with run normal keep show ?thesis
      unfolding broadcast_full_transcript_def start_sends_eq Let_def
      by (auto split: prod.splits option.splits)
  qed
  then show "connections s' = fst ?a"
    and "delivered = map (\<lambda>c. (c, transcript_message full_text now)) (connections s')"
    and "s' = s\<lparr>connections := connections s'\<rparr>"
    by simp_all
  show "snd (snd ?a) = None"
    by (rule normal)
qed

lemma broadcast_delivers_to_members:
  "fst ` set (fst (snd (broadcast_full_transcript nt now s full_text))) \<subseteq> set (connections s)"
proof (cases "connections s = []")
  case True
  then show ?thesis
    by (simp add: broadcast_full_transcript_def)
next
  case False
  let ?tasks = "filter (\<lambda>c. \<not> create_task_raises nt c) (connections s)"
  from await_sends_within [of nt 0 ?tasks]
  have "set (fst (await_sends nt 0 ?tasks)) \<subseteq> set (connections s)"
    by auto
  with False show ?thesis
    unfolding broadcast_full_transcript_def start_sends_eq Let_def
    by (auto split: prod.splits option.splits)
qed

text \<open>
  The connection list holds each connection once, as the set it stands for:
  registering, unregistering and broadcasting keep it so.
\<close>

lemma distinct_register:
  "distinct (connections s) \<Longrightarrow> distinct (connections (register s websocket))"
  by (simp add: register_def)

lemma distinct_unregister:
  "distinct (connections s) \<Longrightarrow> distinct (connections (unregister s websocket))"
  by (simp add: unregister_def distinct_removeAll)

lemma distinct_broadcast:
  "distinct (connections s) \<Longrightarrow>
   distinct (connections (fst (broadcast_full_transcript nt now s full_text)))"
  by (simp add: broadcast_full_transcript_def Let_def split: prod.splits option.splits)

text \<open>A broadcast in which no send task is cancelled returns normally.\<close>

lemma await_sends_returns:
  "\<forall>c \<in> set cs. \<forall>d. send_task nt c \<noteq> Ends d Cancelled \<Longrightarrow>
   snd (snd (await_sends nt t cs)) = None"
proof (induction cs arbitrary: t)
  case Nil
  then show ?case by simp
next
  case (Cons a cs)
  let ?t' = "snd (wait_for (send_task nt a) t send_timeout)"
  from Cons.prems have "\<forall>d. send_task nt a \<noteq> Ends d Cancelled"
    by simp
  then have "fst (wait_for (send_task nt a) t send_timeout) \<noteq> SendCancelled"
  proof (cases "send_task nt a")
    case Never
    then show ?thesis by simp
  next
    case (Ends d e)
    assume "\<forall>d. send_task nt a \<noteq> Ends d Cancelled"
    with Ends have "e \<noteq> Cancelled" by simp
    with Ends show ?thesis by (cases e) simp_all
  qed
  moreover from Cons.prems have "snd (snd (await_sends nt ?t' cs)) = None"
    by (intro Cons.IH) simp
  ultimately show ?case
    unfolding await_sends_Cons by simp
qed

lemma broadcast_returns:
  assumes "\<forall>c \<in> set (connections s). \<forall>d. send_task nt c \<noteq> Ends d Cancelled"
  shows "snd (snd (broadcast_full_transcript nt now s full_text)) = None"
proof (cases "connections s = []")
  case True
  then show ?thesis
    by (simp add: broadcast_full_transcript_def)
next
  case False
  let ?tasks = "filter (\<lambda>c. \<not> create_task_raises nt c) (connections s)"
  from assms have "snd (snd (await_sends nt 0 ?tasks)) = None"
    by (intro await_sends_returns) simp
  with False show ?thesis
    unfolding broadcast_full_transcript_def start_sends_eq Let_def
    by (simp add: case_prod_beta)
qed

text \<open>
  C5 (as amended). A call of \<open>broadcast_full_transcript\<close> that returns normally, on a
  set of distinct connections. The send tasks all start when the call starts, and are
  then awaited one after the other, each for at most 0.1 s counted from the moment
  its own await begins. A connection is kept exactly when its send task could be
  created and has delivered the message no later than 0.1 s after its await began;
  that moment is at most 0.1 s times the number of tasks awaited before it. So a
  connection whose task cannot be created, whose send raises or never completes is
  removed by the end of the call, and one whose send completes within 0.1 s is kept.
  The connections kept are exactly those delivered to, each receiving the message
  once; a later broadcast delivers only to connections that this one kept; with no
  connection the call changes nothing and sends nothing; the transcript is untouched.
\<close>

theorem publish_awaits_in_turn:
  assumes "broadcast_full_transcript nt now s full_text = (s', delivered, None)"
    and "distinct (connections s)"
  shows "delivered = map (\<lambda>c. (c, transcript_message full_text now)) (connections s') \<and>
     (\<forall>pre c post.
        filter (\<lambda>c. \<not> create_task_raises nt c) (connections s) = pre @ c # post \<longrightarrow>
        (c \<in> set (connections s') \<longleftrightarrow>
           (\<exists>d. send_task nt c = Ends d Delivered \<and> d \<le> clock_after nt 0 pre + 1 / 10)) \<and>
        0 \<le> clock_after nt 0 pre \<and> clock_after nt 0 pre \<le> (1 / 10) * real (length pre)) \<and>
     (\<forall>c \<in> set (connections s). create_task_raises nt c \<longrightarrow> c \<notin> set (connections s')) \<and>
     set (connections s') \<subseteq> set (connections s) \<and>
     fst ` set (fst (snd (broadcast_full_transcript nt2 now2 s' text2))) \<subseteq> set (connections s') \<and>
     (connections s = [] \<longrightarrow> s' = s \<and> delivered = []) \<and>
     full_transcript s' = full_transcript s"
proof -
  let ?tasks = "filter (\<lambda>c. \<not> create_task_raises nt c) (connections s)"
  let ?a = "await_sends nt 0 ?tasks"
  note b = broadcast_normal [OF assms]
  have dt: "distinct ?tasks"
    using assms(2) by simp
  from await_sends_normal [OF b(3) dt]
  have del: "fst ?a = filter (\<lambda>c. c \<notin> fst (snd ?a)) ?tasks"
    and each: "\<And>pre c post. ?tasks = pre @ c # post \<Longrightarrow>
      (c \<notin> fst (snd ?a) \<longleftrightarrow>
       fst (wait_for (send_task nt c) (clock_after nt 0 pre) send_timeout) = SendOk)"
    by blast+
  have turn: "\<forall>pre c post. ?tasks = pre @ c # post \<longrightarrow>
        (c \<in> set (connections s') \<longleftrightarrow>
           (\<exists>d. send_task nt c = Ends d Delivered \<and> d \<le> clock_after nt 0 pre + 1 / 10)) \<and>
        0 \<le> clock_after nt 0 pre \<and> clock_after nt 0 pre \<le> (1 / 10) * real (length pre)"
  proof (intro allI impI)
    fix pre c post
    assume split: "?tasks = pre @ c # post"
    then have "c \<in> set ?tasks"
      by simp
    then have "c \<in> set (connections s') \<longleftrightarrow> c \<notin> fst (snd ?a)"
      unfolding b(1) by (subst del) simp
    also have "\<dots> \<longleftrightarrow>
        fst (wait_for (send_task nt c) (clock_after nt 0 pre) send_timeout) = SendOk"
      by (rule each [OF split])
    also have "\<dots> \<longleftrightarrow>
        (\<exists>d. send_task nt c = Ends d Delivered \<and> d \<le> clock_after nt 0 pre + 1 / 10)"
      unfolding wait_for_ok by (simp add: send_timeout_def)
    finally have kept: "c \<in> set (connections s') \<longleftrightarrow>
        (\<exists>d. send_task nt c = Ends d Delivered \<and> d \<le> clock_after nt 0 pre + 1 / 10)" .
    from clock_after_bounds [of 0 nt pre]
    have "0 \<le> clock_after nt 0 pre" and "clock_after nt 0 pre \<le> (1 / 10) * real (length pre)"
      by (simp_all add: send_timeout_def)
    with kept show "(c \<in> set (connections s') \<longleftrightarrow>
           (\<exists>d. send_task nt c = Ends d Delivered \<and> d \<le> clock_after nt 0 pre + 1 / 10)) \<and>
        0 \<le> clock_after nt 0 pre \<and> clock_after nt 0 pre \<le> (1 / 10) * real (length pre)"
      by blast
  qed
  from await_sends_within [of nt 0 ?tasks]
  have sub: "set (connections s') \<subseteq> set ?tasks"
    unfolding b(1) by blast
  then have gone: "\<forall>c \<in> set (connections s). create_task_raises nt c \<longrightarrow> c \<notin> set (connections s')"
    by auto
  from sub have within: "set (connections s') \<subseteq> set (connections s)"
    by auto
  have later: "fst ` set (fst (snd (broadcast_full_transcript nt2 now2 s' text2))) \<subseteq>
      set (connections s')"
    by (rule broadcast_delivers_to_members)
  have none: "connections s = [] \<longrightarrow> s' = s \<and> delivered = []"
    using assms(1) by (auto simp add: broadcast_full_transcript_def)
  have same: "full_transcript s' = full_transcript s"
    by (subst b(4)) simp
  from b(2) turn gone within later none same show ?thesis
    by blast
qed

theorem publish_awaits_in_turn_witness:
  "broadcast_full_transcript late_net 0 (initial_server\<lparr>connections := [1, 2, 3]\<rparr>)
     (of_string ''Hi'') =
     (initial_server\<lparr>connections := [2]\<rparr>, [(2, transcript_message (of_string ''Hi'') 0)], None) \<and>
   distinct (connections (initial_server\<lparr>connections := [1, 2, 3]\<rparr>)) \<and>
   filter (\<lambda>c. \<not> create_task_raises late_net c)
     (connections (initial_server\<lparr>connections := [1, 2, 3]\<rparr>)) = [1] @ 2 # [] \<and>
   clock_after late_net 0 [1] = 1 / 10 \<and>
   (2 \<in> set (connections (initial_server\<lparr>connections := [2]\<rparr>)) \<longleftrightarrow>
      (\<exists>d. send_task late_net 2 = Ends d Delivered \<and> d \<le> clock_after late_net 0 [1] + 1 / 10)) \<and>
   3 \<notin> set (connections (initial_server\<lparr>connections := [2]\<rparr>))"
proof -
  let ?s = "initial_server\<lparr>connections := [1, 2, 3]\<rparr>"
  have run: "broadcast_full_transcript late_net 0 ?s (of_string ''Hi'') =
     (initial_server\<lparr>connections := [2]\<rparr>, [(2, transcript_message (of_string ''Hi'') 0)], None)"
    by (simp add: broadcast_full_transcript_def late_net_def initial_server_def send_timeout_def)
  have dist: "distinct (connections ?s)"
    by simp
  have tasks: "filter (\<lambda>c. \<not> create_task_raises late_net c) (connections ?s) = [1] @ 2 # []"
    by (simp add: late_net_def)
  have clock: "clock_after late_net 0 [1] = 1 / 10"
    by (simp add: late_net_def send_timeout_def)
  from publish_awaits_in_turn [OF run dist] tasks
  have "2 \<in> set (connections (initial_server\<lparr>connections := [2]\<rparr>)) \<longleftrightarrow>
      (\<exists>d. send_task late_net 2 = Ends d Delivered \<and> d \<le> clock_after late_net 0 [1] + 1 / 10)"
    by blast
  moreover from publish_awaits_in_turn [OF run dist]
  have "3 \<notin> set (connections (initial_server\<lparr>connections := [2]\<rparr>))"
    by simp
  ultimately show ?thesis
    using run dist tasks clock by blast
qed

text \<open>
  C5 as stated fails on the code. Subscriber \<open>1\<close> never accepts the data and subscriber
  \<open>2\<close> accepts it after 150 ms: the await of \<open>1\<close> times out at 100 ms, the await of \<open>2\<close>
  begins then and sees the send complete at 150 ms, so \<open>2\<close> is kept and delivered to
  although its send exceeded 100 ms; alone, \<open>2\<close> is removed. And when the send task of
  a subscriber is cancelled, \<open>CancelledError\<close> leaves the call before any connection is
  removed: the subscriber that never accepts the data stays in the set.
\<close>

theorem sequential_await_counterexample:
  "send_task late_net 2 = Ends (3 / 20) Delivered \<and> send_timeout < 3 / 20 \<and>
   broadcast_full_transcript late_net 0 (initial_server\<lparr>connections := [1, 2]\<rparr>)
     (of_string ''Hi'') =
     (initial_server\<lparr>connections := [2]\<rparr>, [(2, transcript_message (of_string ''Hi'') 0)], None) \<and>
   broadcast_full_transcript late_net 0 (initial_server\<lparr>connections := [2]\<rparr>)
     (of_string ''Hi'') = (initial_server\<lparr>connections := []\<rparr>, [], None) \<and>
   send_task cancelled_net 2 = Never \<and>
   broadcast_full_transcript cancelled_net 0 (initial_server\<lparr>connections := [1, 2]\<rparr>)
     (of_string ''Hi'') = (initial_server\<lparr>connections := [1, 2]\<rparr>, [], Some CancelledError)"
  by (simp add: broadcast_full_transcript_def late_net_def cancelled_net_def
      initial_server_def send_timeout_def)


section \<open>The client session: facts and claim\<close>

lemma ping_gets_one_pong:
  "map_of kvs (of_string ''type'') = Some (JString (of_string ''ping'')) \<Longrightarrow>
   \<not> send_fails (length sent) \<Longrightarrow>
   handle_message send_fails sent (Loaded (JObject kvs)) = Inr (sent @ [pong_message])"
  by (simp add: handle_message_def)

lemma other_type_ignored:
  "map_of kvs (of_string ''type'') \<noteq> Some (JString (of_string ''ping'')) \<Longrightarrow>
   handle_message send_fails sent (Loaded (JObject kvs)) = Inr sent"
  by (simp add: handle_message_def)

lemma undecodable_ignored:
  "handle_message send_fails sent JSONDecodeError = Inr sent"
  by (simp add: handle_message_def)

text \<open>
  C6. A session that receives the text \<open>42\<close> (valid JSON, not an object) and then a
  ping: \<open>data.get\<close> raises \<open>AttributeError\<close> on the number, which the handler of
  \<open>JSONDecodeError\<close> inside the loop does not catch; the session ends there, the
  connection is unregistered, and the ping that follows is never answered. All the
  client was sent is the greeting.
\<close>

theorem non_object_message_ends_session:
  "handle_message (\<lambda>k. False) [connected_message] (Loaded (JNumber 42)) = Inl AttributeError \<and>
   handle_client (\<lambda>k. False) initial_server 1 [Loaded (JNumber 42), Loaded ping_message] =
     (initial_server, [connected_message], Some AttributeError) \<and>
   handle_client (\<lambda>k. False) initial_server 1 [JSONDecodeError, Loaded ping_message] =
     (initial_server, [connected_message, pong_message], None)"
  by (simp add: handle_client_def handle_message_def register_def unregister_def
      initial_server_def ping_message_def of_string_def)


section \<open>The worker: facts\<close>

lemma quiet_step_refl: "quiet_step st st"
  by (simp add: quiet_step_def)

lemma quiet_step_trans:
  assumes "quiet_step a b" and "quiet_step b c"
  shows "quiet_step a c"
proof -
  from assms(1) obtain evs1 where 1: "trace b = trace a @ evs1" "filter is_engine_call evs1 = []"
    and q1: "audio_queue b = audio_queue a" "engine_state b = engine_state a"
    unfolding quiet_step_def by blast
  from assms(2) obtain evs2 where 2: "trace c = trace b @ evs2" "filter is_engine_call evs2 = []"
    and q2: "audio_queue c = audio_queue b" "engine_state c = engine_state b"
    unfolding quiet_step_def by blast
  have "trace c = trace a @ (evs1 @ evs2)" "filter is_engine_call (evs1 @ evs2) = []"
    using 1 2 by simp_all
  then show ?thesis
    unfolding quiet_step_def using q1 q2 by metis
qed

lemma quiet_step_log:
  "filter is_engine_call evs = [] \<Longrightarrow> quiet_step st (log_event st evs)"
  unfolding quiet_step_def log_event_def by simp

lemma effects_not_engine: "filter is_engine_call (map Effect effs) = []"
  by (induction effs) simp_all

lemma quiet_step_callback: "quiet_step st (call_callback cfg st sp)"
  unfolding quiet_step_def call_callback_def
  by (simp add: effects_not_engine split: option.splits prod.splits)

lemma quiet_step_write_file: "quiet_step st (state_of (write_file cfg st result))"
  unfolding write_file_def state_of_def fmt_times_def
  by (simp add: quiet_step_refl quiet_step_log split: prod.splits option.splits)

lemma quiet_step_print_line: "quiet_step st (state_of (print_line cfg st result))"
  unfolding print_line_def state_of_def fmt_times_def
  by (simp add: quiet_step_refl quiet_step_log split: prod.splits option.splits)

lemma quiet_step_emit: "quiet_step st (state_of (emit cfg st result))"
proof (cases "truthy (snd (snd result))")
  case False
  then show ?thesis
    by (simp add: emit_def state_of_def quiet_step_refl)
next
  case True
  let ?st1 = "call_callback cfg st result"
  have 1: "quiet_step st ?st1"
    by (rule quiet_step_callback)
  have 2: "quiet_step ?st1 (state_of (write_file cfg ?st1 result))"
    by (rule quiet_step_write_file)
  show ?thesis
  proof (cases "write_file cfg ?st1 result")
    case (Inl failed)
    then have "state_of (emit cfg st result) = state_of (write_file cfg ?st1 result)"
      using True by (simp add: emit_def state_of_def)
    then show ?thesis
      using quiet_step_trans [OF 1 2] by simp
  next
    case (Inr st2)
    then have e: "state_of (emit cfg st result) = state_of (print_line cfg st2 result)"
      using True by (simp add: emit_def)
    from Inr have "state_of (write_file cfg ?st1 result) = st2"
      by (simp add: state_of_def)
    with 2 have "quiet_step ?st1 st2" by simp
    with 1 have "quiet_step st st2" by (rule quiet_step_trans)
    then have "quiet_step st (state_of (print_line cfg st2 result))"
      using quiet_step_print_line by (rule quiet_step_trans)
    then show ?thesis
      using e by simp
  qed
qed

lemma process_chunk_shape:
  "\<exists>evs. audio_queue (process_chunk cfg eng st x) = audio_queue st \<and>
         trace (process_chunk cfg eng st x) = trace st @ Fed x # evs \<and>
         filter is_engine_call evs = []"
proof -
  obtain e1 r1 where i: "insert_audio_chunk eng (engine_state st) x = (e1, r1)"
    by (cases "insert_audio_chunk eng (engine_state st) x") auto
  show ?thesis
  proof (cases r1)
    case (Inl ex)
    with i have "process_chunk cfg eng st x =
        log_event (st\<lparr>engine_state := e1\<rparr>) [Fed x, ErrorProcessing ex]"
      by (simp add: process_chunk_def)
    then show ?thesis
      by (simp add: log_event_def)
  next
    case r1: (Inr u)
    obtain e2 r2 where p: "process_iter eng e1 = (e2, r2)"
      by (cases "process_iter eng e1") auto
    show ?thesis
    proof (cases r2)
      case (Inl ex)
      with i r1 p have "process_chunk cfg eng st x =
          log_event (st\<lparr>engine_state := e2\<rparr>) [Fed x, ErrorProcessing ex]"
        by (simp add: process_chunk_def)
      then show ?thesis
        by (simp add: log_event_def)
    next
      case r2: (Inr result)
      let ?st0 = "log_event (st\<lparr>engine_state := e2\<rparr>) [Fed x]"
      let ?r = "emit cfg ?st0 result"
      have pc: "process_chunk cfg eng st x =
          (case ?r of Inl (ex, st') \<Rightarrow> log_event st' [ErrorProcessing ex] | Inr st' \<Rightarrow> st')"
        using i r1 p r2 by (simp add: process_chunk_def)
      from quiet_step_emit [of ?st0 cfg result]
      obtain evs where q: "audio_queue (state_of ?r) = audio_queue ?st0"
          "trace (state_of ?r) = trace ?st0 @ evs" "filter is_engine_call evs = []"
        unfolding quiet_step_def by blast
      have st0: "audio_queue ?st0 = audio_queue st" "trace ?st0 = trace st @ [Fed x]"
        by (simp_all add: log_event_def)
      show ?thesis
      proof (cases ?r)
        case (Inl failed)
        obtain ex st' where f: "failed = (ex, st')"
          by (cases failed) auto
        have s: "state_of ?r = st'"
          unfolding Inl f by (simp add: state_of_def)
        have "process_chunk cfg eng st x = log_event st' [ErrorProcessing ex]"
          unfolding pc Inl f by simp
        then have "audio_queue (process_chunk cfg eng st x) = audio_queue st"
          and "trace (process_chunk cfg eng st x) = trace st @ Fed x # (evs @ [ErrorProcessing ex])"
          using q st0 unfolding s by (simp_all add: log_event_def)
        moreover have "filter is_engine_call (evs @ [ErrorProcessing ex]) = []"
          using q(3) by simp
        ultimately show ?thesis by blast
      next
        case (Inr st')
        have s: "state_of ?r = st'"
          unfolding Inr by (simp add: state_of_def)
        have "process_chunk cfg eng st x = st'"
          unfolding pc Inr by simp
        then have "audio_queue (process_chunk cfg eng st x) = audio_queue st"
          and "trace (process_chunk cfg eng st x) = trace st @ Fed x # evs"
          using q st0 unfolding s by simp_all
        then show ?thesis
          using q(3) by blast
      qed
    qed
  qed
qed

lemma process_chunk_queue: "audio_queue (process_chunk cfg eng st x) = audio_queue st"
  using process_chunk_shape [of cfg eng st x] by blast

lemma process_chunk_engine_calls:
  "filter is_engine_call (trace (process_chunk cfg eng st x)) =
   filter is_engine_call (trace st) @ [Fed x]"
proof -
  from process_chunk_shape [of cfg eng st x]
  obtain evs where "trace (process_chunk cfg eng st x) = trace st @ Fed x # evs"
    and "filter is_engine_call evs = []"
    by blast
  then show ?thesis by simp
qed

text \<open>When the engine raises on the chunk, the chunk is reported and nothing else happens.\<close>

lemma process_chunk_engine_raises:
  assumes "snd (insert_audio_chunk eng (engine_state st) x) = Inl ex \<or>
     (snd (insert_audio_chunk eng (engine_state st) x) = Inr () \<and>
      snd (process_iter eng (fst (insert_audio_chunk eng (engine_state st) x))) = Inl ex)"
  shows "srv (process_chunk cfg eng st x) = srv st \<and>
         trace (process_chunk cfg eng st x) = trace st @ [Fed x, ErrorProcessing ex]"
proof -
  obtain e1 r1 where i: "insert_audio_chunk eng (engine_state st) x = (e1, r1)"
    by (cases "insert_audio_chunk eng (engine_state st) x") auto
  obtain e2 r2 where p: "process_iter eng e1 = (e2, r2)"
    by (cases "process_iter eng e1") auto
  from assms i p have "r1 = Inl ex \<or> (r1 = Inr () \<and> r2 = Inl ex)"
    by simp
  then show ?thesis
    using i p by (auto simp add: process_chunk_def log_event_def)
qed

lemma worker_iteration_step:
  assumes "items (audio_queue st) = x # rest"
    and "unfinished_tasks (audio_queue st) = Suc n"
  shows "worker_iteration cfg eng running st =
     (process_chunk cfg eng (st\<lparr>audio_queue := (audio_queue st)\<lparr>items := rest\<rparr>\<rparr>) x)
       \<lparr>audio_queue := (audio_queue st)\<lparr>items := rest, unfinished_tasks := n\<rparr>\<rparr>"
  using assms
  by (simp add: worker_iteration_def get_timeout_def task_done_def Let_def process_chunk_queue)

lemma worker_iteration_queue:
  assumes "items (audio_queue st) = x # rest"
    and "unfinished_tasks (audio_queue st) = Suc n"
  shows "items (audio_queue (worker_iteration cfg eng running st)) = rest"
    and "unfinished_tasks (audio_queue (worker_iteration cfg eng running st)) = n"
    and "filter is_engine_call (trace (worker_iteration cfg eng running st)) =
         filter is_engine_call (trace st) @ [Fed x]"
  unfolding worker_iteration_step [OF assms]
  by (simp_all add: process_chunk_engine_calls)



lemma finish_iteration_step:
  assumes "unfinished_tasks (audio_queue st) = Suc n"
  shows "finish_iteration cfg eng running st x =
     (process_chunk cfg eng st x)\<lparr>audio_queue := (audio_queue st)\<lparr>unfinished_tasks := n\<rparr>\<rparr>"
  using assms
  by (simp add: finish_iteration_def task_done_def Let_def process_chunk_queue)

lemma finish_iteration_queue:
  assumes "unfinished_tasks (audio_queue st) = Suc n"
  shows "items (audio_queue (finish_iteration cfg eng running st x)) = items (audio_queue st)"
    and "unfinished_tasks (audio_queue (finish_iteration cfg eng running st x)) = n"
    and "filter is_engine_call (trace (finish_iteration cfg eng running st x)) =
         filter is_engine_call (trace st) @ [Fed x]"
  unfolding finish_iteration_step [OF assms]
  by (simp_all add: process_chunk_engine_calls)




lemma worker_returns:
  "unfinished_tasks (audio_queue st) = length (items (audio_queue st)) \<Longrightarrow>
   length (items (audio_queue st)) = n \<Longrightarrow>
   process_audio_worker cfg eng False st = Some (iterate_worker cfg eng False n st)"
proof (induction n arbitrary: st)
  case 0
  then show ?case
    by (subst process_audio_worker.simps) simp
next
  case (Suc n)
  from Suc.prems(2) obtain x rest where xs: "items (audio_queue st) = x # rest"
    by (cases "items (audio_queue st)") auto
  with Suc.prems have u: "unfinished_tasks (audio_queue st) = Suc n" and n: "length rest = n"
    by simp_all
  let ?st' = "worker_iteration cfg eng False st"
  note w = worker_iteration_queue [OF xs u, of cfg eng False]
  have "unfinished_tasks (audio_queue ?st') = length (items (audio_queue ?st'))"
    and "length (items (audio_queue ?st')) = n"
    using w n by simp_all
  from Suc.IH [OF this] have "process_audio_worker cfg eng False ?st' =
      Some (iterate_worker cfg eng False n ?st')" .
  then show ?case
    using xs by (subst process_audio_worker.simps) simp
qed

lemma worker_drains:
  "unfinished_tasks (audio_queue st) = length (items (audio_queue st)) \<Longrightarrow>
   process_audio_worker cfg eng False st =
     Some (iterate_worker cfg eng False (length (items (audio_queue st))) st)"
  by (rule worker_returns) simp_all

lemma worker_iteration_feeds_head:
  assumes "items (audio_queue st) = y # later"
    and "unfinished_tasks (audio_queue st) = Suc n"
  shows "\<exists>evs. trace (worker_iteration cfg eng running st) = trace st @ Fed y # evs"
proof -
  let ?st0 = "st\<lparr>audio_queue := (audio_queue st)\<lparr>items := later\<rparr>\<rparr>"
  from process_chunk_shape [of cfg eng ?st0 y]
  obtain evs where "trace (process_chunk cfg eng ?st0 y) = trace ?st0 @ Fed y # evs"
    by blast
  then have "trace (worker_iteration cfg eng running st) = trace st @ Fed y # evs"
    unfolding worker_iteration_step [OF assms] by simp
  then show ?thesis ..
qed

lemmas worker_defs =
  worker_iteration_def process_chunk_def emit_def write_file_def print_line_def
  call_callback_def log_event_def get_timeout_def task_done_def truthy_def fmt_times_def
  server_config_def scripted_engine_def pipeline_with_def

text \<open>
  C7. When the engine raises while the worker processes the frame at the head of the
  queue (in \<open>insert_audio_chunk\<close> or in \<open>process_iter\<close>), the exception is caught and
  reported, no callback runs, so the server state and with it the canonical
  transcript are as before, the frame is off the queue and counted as done, and the
  loop goes on from there: its next pass feeds the next queued frame to the engine.
\<close>

theorem engine_error_skips_frame:
  assumes "items (audio_queue st) = x # rest"
    and "unfinished_tasks (audio_queue st) = length (items (audio_queue st))"
    and "snd (insert_audio_chunk eng (engine_state st) x) = Inl ex \<or>
     (snd (insert_audio_chunk eng (engine_state st) x) = Inr () \<and>
      snd (process_iter eng (fst (insert_audio_chunk eng (engine_state st) x))) = Inl ex)"
  shows "srv (worker_iteration cfg eng running st) = srv st \<and>
     trace (worker_iteration cfg eng running st) = trace st @ [Fed x, ErrorProcessing ex] \<and>
     items (audio_queue (worker_iteration cfg eng running st)) = rest \<and>
     unfinished_tasks (audio_queue (worker_iteration cfg eng running st)) = length rest \<and>
     process_audio_worker cfg eng running st =
       process_audio_worker cfg eng running (worker_iteration cfg eng running st) \<and>
     (\<forall>y later. rest = y # later \<longrightarrow>
        (\<exists>evs. trace (worker_iteration cfg eng running (worker_iteration cfg eng running st)) =
               trace st @ [Fed x, ErrorProcessing ex] @ Fed y # evs))"
proof -
  let ?st0 = "st\<lparr>audio_queue := (audio_queue st)\<lparr>items := rest\<rparr>\<rparr>"
  let ?st' = "worker_iteration cfg eng running st"
  from assms(1,2) have u: "unfinished_tasks (audio_queue st) = Suc (length rest)"
    by simp
  note step = worker_iteration_step [OF assms(1) u, of cfg eng running]
  from assms(3) have raises:
    "snd (insert_audio_chunk eng (engine_state ?st0) x) = Inl ex \<or>
     (snd (insert_audio_chunk eng (engine_state ?st0) x) = Inr () \<and>
      snd (process_iter eng (fst (insert_audio_chunk eng (engine_state ?st0) x))) = Inl ex)"
    by simp
  note pc = process_chunk_engine_raises [OF raises, of cfg]
  have s: "srv ?st' = srv st"
    unfolding step using pc by simp
  have t: "trace ?st' = trace st @ [Fed x, ErrorProcessing ex]"
    unfolding step using pc by simp
  have q: "items (audio_queue ?st') = rest"
    and d: "unfinished_tasks (audio_queue ?st') = length rest"
    unfolding step by simp_all
  have l: "process_audio_worker cfg eng running st = process_audio_worker cfg eng running ?st'"
    using assms(1) by (subst process_audio_worker.simps) simp
  have n: "\<forall>y later. rest = y # later \<longrightarrow>
        (\<exists>evs. trace (worker_iteration cfg eng running ?st') =
               trace st @ [Fed x, ErrorProcessing ex] @ Fed y # evs)"
  proof (intro allI impI)
    fix y later
    assume r: "rest = y # later"
    from q r have i: "items (audio_queue ?st') = y # later" by simp
    from d r have c: "unfinished_tasks (audio_queue ?st') = Suc (length later)" by simp
    from worker_iteration_feeds_head [OF i c, of cfg eng running] obtain evs where
      "trace (worker_iteration cfg eng running ?st') = trace ?st' @ Fed y # evs" ..
    then show "\<exists>evs. trace (worker_iteration cfg eng running ?st') =
               trace st @ [Fed x, ErrorProcessing ex] @ Fed y # evs"
      unfolding t by simp
  qed
  from s t q d l n show ?thesis by blast
qed

theorem engine_error_skips_frame_witness:
  "items (audio_queue (pipeline_with (0::nat) [0, 1::nat])) = 0 # [1] \<and>
   unfinished_tasks (audio_queue (pipeline_with (0::nat) [0, 1::nat])) =
     length (items (audio_queue (pipeline_with (0::nat) [0, 1::nat]))) \<and>
   snd (insert_audio_chunk (scripted_engine (of_string ''ok'') [])
          (engine_state (pipeline_with (0::nat) [0, 1::nat])) 0) = Inl (Exception ''bad frame'') \<and>
   srv (worker_iteration server_config (scripted_engine (of_string ''ok'') []) False
          (pipeline_with 0 [0, 1])) = initial_server \<and>
   trace (worker_iteration server_config (scripted_engine (of_string ''ok'') []) False
          (pipeline_with 0 [0, 1])) = [Fed 0, ErrorProcessing (Exception ''bad frame'')] \<and>
   map_option (full_transcript \<circ> srv)
     (process_audio_worker server_config (scripted_engine (of_string ''ok'') []) False
        (pipeline_with 0 [0, 1])) = Some (of_string ''ok'')"
proof -
  let ?eng = "scripted_engine (of_string ''ok'') []"
  let ?st = "pipeline_with (0::nat) [0, 1::nat]"
  have h1: "items (audio_queue ?st) = 0 # [1]"
    by (simp add: pipeline_with_def)
  have h2: "unfinished_tasks (audio_queue ?st) = length (items (audio_queue ?st))"
    by (simp add: pipeline_with_def)
  have h3: "snd (insert_audio_chunk ?eng (engine_state ?st) 0) = Inl (Exception ''bad frame'') \<or>
     (snd (insert_audio_chunk ?eng (engine_state ?st) 0) = Inr () \<and>
      snd (process_iter ?eng (fst (insert_audio_chunk ?eng (engine_state ?st) 0))) =
        Inl (Exception ''bad frame''))"
    by (simp add: scripted_engine_def)
  have run: "map_option (full_transcript \<circ> srv)
     (process_audio_worker server_config ?eng False ?st) = Some (of_string ''ok'')"
    unfolding worker_drains [OF h2]
    by (simp add: worker_defs eval_defs)
  from engine_error_skips_frame [OF h1 h2 h3, of server_config False] h1 h2 h3 run
  show ?thesis
    by (simp add: scripted_engine_def pipeline_with_def)
qed


section \<open>The shutdown sequence: facts and claim\<close>


















text \<open>
  The counter of unfinished tasks on the states the two threads reach: it counts the
  frames queued and the frame the worker holds. A put, the worker's \<open>get\<close> and the
  rest of its pass all keep it so, starting from the fresh queue.
\<close>

lemma counter_fresh:
  "unfinished_tasks (audio_queue_new :: 'f pyqueue) =
     length (items (audio_queue_new :: 'f pyqueue)) + length (pending (AtLoopHead :: 'f worker_pos))"
  by (simp add: audio_queue_new_def Queue_def)

lemma counter_put:
  assumes "unfinished_tasks q = length (items q) + length (pending w)"
    and "audio_callback running q x = Inr q'"
  shows "unfinished_tasks q' = length (items q') + length (pending w)"
  using assms by (auto simp add: audio_callback_def put_nowait_def split: if_splits)

lemma counter_move:
  assumes "unfinished_tasks (audio_queue st) =
      length (items (audio_queue st)) + length (pending w)"
  shows "unfinished_tasks (audio_queue (snd (worker_move cfg eng running w st))) =
      length (items (audio_queue (snd (worker_move cfg eng running w st)))) +
      length (pending (fst (worker_move cfg eng running w st)))"
proof (cases w)
  case AtLoopHead
  with assms show ?thesis
    by (cases "items (audio_queue st)") (simp_all add: worker_move_def get_timeout_def)
next
  case (Processing x)
  with assms have "unfinished_tasks (audio_queue st) = Suc (length (items (audio_queue st)))"
    by simp
  from finish_iteration_queue(1,2) [OF this, of cfg eng running x] show ?thesis
    unfolding Processing by (simp add: worker_move_def)
next
  case Exited
  with assms show ?thesis
    by (simp add: worker_move_def)
qed




end
